theory Spec2Isabelle
  imports Main
begin

section \<open>Text and character classes\<close>

text \<open>
  The program \<^verbatim>\<open>tools/analyze_template.py\<close> reads one template file, splits it into
  lines (\<^verbatim>\<open>s.splitlines()\<close>) and scans the lines once with two regular expressions and a
  stack. The document of the model is the list of these lines. The pattern compiled on
  line 5 of the program is never used and has no counterpart here.

  A line is a \<^typ>\<open>string\<close>. Python's \<^verbatim>\<open>str\<close> is a sequence of code points; a
  \<^typ>\<open>char\<close> stands for the code point of the same number, so the model covers text in
  the range U+0000 to U+00FF. The two classes below are the tables Python's \<^verbatim>\<open>re\<close> module
  uses for a \<^verbatim>\<open>str\<close> pattern on that range: \<^verbatim>\<open>\s\<close> (the same table as
  \<^verbatim>\<open>str.isspace\<close>) and \<^verbatim>\<open>\w\<close> (alphanumeric or underscore).
\<close>

definition is_space :: "char \<Rightarrow> bool" where
  "is_space c =
     (let n = (of_char c :: nat)
      in (9 \<le> n \<and> n \<le> 13) \<or> (28 \<le> n \<and> n \<le> 32) \<or> n = 133 \<or> n = 160)"

definition is_word :: "char \<Rightarrow> bool" where
  "is_word c =
     (let n = (of_char c :: nat)
      in (48 \<le> n \<and> n \<le> 57) \<or> (65 \<le> n \<and> n \<le> 90) \<or> n = 95 \<or> (97 \<le> n \<and> n \<le> 122)
         \<or> n = 170 \<or> n = 178 \<or> n = 179 \<or> n = 181 \<or> n = 185 \<or> n = 186
         \<or> (188 \<le> n \<and> n \<le> 190) \<or> (192 \<le> n \<and> n \<le> 214) \<or> (216 \<le> n \<and> n \<le> 246)
         \<or> 248 \<le> n)"

section \<open>Regular expressions\<close>

text \<open>
  The constructs that occur in the two patterns of the scan loop, and the empty pattern.
  A character class is
  either \<^verbatim>\<open>\s\<close> or a negated one-character set such as \<^verbatim>\<open>[^\)]\<close>; the patterns
  apply \<^verbatim>\<open>*\<close> to a character class only.
\<close>

datatype cls = Space | NotChar char

fun in_cls :: "cls \<Rightarrow> char \<Rightarrow> bool" where
  "in_cls Space c = is_space c"
| "in_cls (NotChar x) c = (c \<noteq> x)"

datatype regex =
    Epsilon
  | Lit char
  | Bol
  | Wordb
  | Seq regex regex
  | Alt regex regex
  | Opt regex
  | Star cls
  | Grp nat regex

text \<open>
  A position in the subject string is the character before the cursor (\<open>None\<close> at the
  start of the string) and the text after the cursor. The groups of a match map a group
  number to the text the group captured.
\<close>

type_synonym pos = "char option \<times> string"
type_synonym groups = "nat \<Rightarrow> string option"

definition word_before :: "char option \<Rightarrow> bool" where
  "word_before p = (case p of None \<Rightarrow> False | Some c \<Rightarrow> is_word c)"

definition word_after :: "string \<Rightarrow> bool" where
  "word_after s = (case s of [] \<Rightarrow> False | c # _ \<Rightarrow> is_word c)"

text \<open>
  \<open>star k p s g\<close> lists the ways \<^verbatim>\<open>k*\<close> can match at a position, the longest first, as
  the greedy repetition of a backtracking matcher tries them.
\<close>

fun star :: "cls \<Rightarrow> char option \<Rightarrow> string \<Rightarrow> groups \<Rightarrow> (pos \<times> groups) list" where
  "star k p [] g = [((p, []), g)]"
| "star k p (c # cs) g =
     (if in_cls k c then star k (Some c) cs g @ [((p, c # cs), g)] else [((p, c # cs), g)])"

text \<open>
  \<open>rmatch r (p, s) g\<close> lists every way \<open>r\<close> can match at the position \<open>(p, s)\<close>, in the
  order in which Python's backtracking matcher tries them: the alternatives of \<^verbatim>\<open>|\<close>
  from left to right, \<^verbatim>\<open>?\<close> and \<^verbatim>\<open>*\<close> greedy. Each result is the position after the match
  and the groups set so far.
\<close>

fun rmatch :: "regex \<Rightarrow> pos \<Rightarrow> groups \<Rightarrow> (pos \<times> groups) list" where
  "rmatch Epsilon ps g = [(ps, g)]"
| "rmatch (Lit c) ps g =
     (case snd ps of [] \<Rightarrow> [] | x # xs \<Rightarrow> if x = c then [((Some x, xs), g)] else [])"
| "rmatch Bol ps g = (if fst ps = None then [(ps, g)] else [])"
| "rmatch Wordb ps g =
     (if word_before (fst ps) \<noteq> word_after (snd ps) then [(ps, g)] else [])"
| "rmatch (Seq a b) ps g = concat (map (\<lambda>r. rmatch b (fst r) (snd r)) (rmatch a ps g))"
| "rmatch (Alt a b) ps g = rmatch a ps g @ rmatch b ps g"
| "rmatch (Opt a) ps g = rmatch a ps g @ [(ps, g)]"
| "rmatch (Star k) ps g = star k (fst ps) (snd ps) g"
| "rmatch (Grp n a) ps g =
     map (\<lambda>r. (fst r, (snd r)(n \<mapsto> take (length (snd ps) - length (snd (fst r))) (snd ps))))
       (rmatch a ps g)"

text \<open>A string of literal characters, such as the keyword \<^verbatim>\<open>switch\<close>.\<close>

primrec lits :: "string \<Rightarrow> regex" where
  "lits [] = Epsilon"
| "lits (c # cs) = Seq (Lit c) (lits cs)"

text \<open>
  \<^verbatim>\<open>re.search\<close>: the first start position, from the left, at which the pattern matches,
  and there the first way the matcher finds. The result is the groups of the match
  object, or \<open>None\<close> where Python returns \<^verbatim>\<open>None\<close>.
\<close>

fun search_from :: "regex \<Rightarrow> char option \<Rightarrow> string \<Rightarrow> groups option" where
  "search_from r p [] = (case rmatch r (p, []) Map.empty of [] \<Rightarrow> None | x # _ \<Rightarrow> Some (snd x))"
| "search_from r p (c # cs) =
     (case rmatch r (p, c # cs) Map.empty of
        [] \<Rightarrow> search_from r (Some c) cs
      | x # _ \<Rightarrow> Some (snd x))"

definition re_search :: "regex \<Rightarrow> string \<Rightarrow> groups option" where
  "re_search r l = search_from r None l"

section \<open>The two patterns of the scan loop\<close>

text \<open>A sequence of patterns, one after the other.\<close>

definition seqs :: "regex list \<Rightarrow> regex" where
  "seqs rs = foldr Seq rs Epsilon"

text \<open>
  The opening pattern, line 11 of the program:
  \<^verbatim>\<open>@(if|for|switch|case|empty|else)\b\s*(\([^\)]*\))?\s*\{\<close>
\<close>

definition keyword_alt :: regex where
  "keyword_alt =
     Alt (lits ''if'') (Alt (lits ''for'') (Alt (lits ''switch'')
       (Alt (lits ''case'') (Alt (lits ''empty'') (lits ''else'')))))"

definition open_pattern :: regex where
  "open_pattern =
     seqs [Lit CHR ''@'', Grp 1 keyword_alt, Wordb, Star Space,
           Opt (Grp 2 (seqs [Lit CHR ''('', Star (NotChar CHR '')''), Lit CHR '')''])),
           Star Space, Lit CHR ''{'']"

text \<open>
  The closing pattern, line 16 of the program:
  \<^verbatim>\<open>^\s*\}\s*(?:@else|@empty|@case)?\<close>
\<close>

definition close_pattern :: regex where
  "close_pattern =
     seqs [Bol, Star Space, Lit CHR ''}'', Star Space,
           Opt (Alt (lits ''@else'') (Alt (lits ''@empty'') (lits ''@case'')))]"

section \<open>The scan\<close>

text \<open>
  The state of the program: the list \<^verbatim>\<open>stack\<close> of pairs \<^verbatim>\<open>(tok, i)\<close>, where
  \<^verbatim>\<open>append\<close> adds at the end and \<^verbatim>\<open>pop\<close> removes the last element, and the lines
  printed so far. \<^verbatim>\<open>tok\<close> is \<^verbatim>\<open>m.group(1)\<close>, which Python types as a string or
  \<^verbatim>\<open>None\<close>.
\<close>

record state =
  stack :: "(string option \<times> nat) list"
  out :: "string list"

definition init :: state where
  "init = \<lparr>stack = [], out = []\<rparr>"

text \<open>\<^verbatim>\<open>str(i)\<close> for a line number: its decimal digits.\<close>

fun str_nat :: "nat \<Rightarrow> string" where
  "str_nat n =
     (if n < 10 then [''0123456789'' ! n]
      else str_nat (n div 10) @ [''0123456789'' ! (n mod 10)])"

declare str_nat.simps [simp del]

definition str_tok :: "string option \<Rightarrow> string" where
  "str_tok t = (case t of None \<Rightarrow> ''None'' | Some s \<Rightarrow> s)"

text \<open>\<^verbatim>\<open>print('Unmatched closing brace at', i)\<close> and \<^verbatim>\<open>print(tok, 'opened at', i)\<close>.\<close>

definition unmatched_msg :: "nat \<Rightarrow> string" where
  "unmatched_msg i = ''Unmatched closing brace at'' @ '' '' @ str_nat i"

definition opened_msg :: "string option \<times> nat \<Rightarrow> string" where
  "opened_msg e = str_tok (fst e) @ '' '' @ ''opened at'' @ '' '' @ str_nat (snd e)"

text \<open>Lines 11 to 14: the opening check of line \<open>l\<close>, number \<open>i\<close>.\<close>

definition open_check :: "nat \<Rightarrow> string \<Rightarrow> state \<Rightarrow> state" where
  "open_check i l st =
     (case re_search open_pattern l of
        None \<Rightarrow> st
      | Some m \<Rightarrow> st\<lparr>stack := stack st @ [(m 1, i)]\<rparr>)"

text \<open>Lines 16 to 20: the closing check of the same line.\<close>

definition close_check :: "nat \<Rightarrow> string \<Rightarrow> state \<Rightarrow> state" where
  "close_check i l st =
     (case re_search close_pattern l of
        None \<Rightarrow> st
      | Some m \<Rightarrow>
          if stack st \<noteq> [] then st\<lparr>stack := butlast (stack st)\<rparr>
          else st\<lparr>out := out st @ [unmatched_msg i]\<rparr>)"

text \<open>One iteration of the loop of line 9.\<close>

definition step :: "nat \<Rightarrow> string \<Rightarrow> state \<Rightarrow> state" where
  "step i l st = close_check i l (open_check i l st)"

text \<open>The loop over \<^verbatim>\<open>enumerate(lines, 1)\<close>, from line number \<open>i\<close> on.\<close>

fun scan_from :: "nat \<Rightarrow> string list \<Rightarrow> state \<Rightarrow> state" where
  "scan_from i [] st = st"
| "scan_from i (l # ls) st = scan_from (Suc i) ls (step i l st)"

definition final :: "string list \<Rightarrow> state" where
  "final ls = scan_from 1 ls init"

text \<open>Lines 22 to 27: the report after the loop.\<close>

definition report :: "state \<Rightarrow> string list" where
  "report st =
     (if stack st \<noteq> [] then out st @ [''Unclosed control blocks:''] @ map opened_msg (stack st)
      else out st @ [''All control blocks closed''])"

text \<open>The whole program on the lines of the file: everything it prints.\<close>

definition scan :: "string list \<Rightarrow> string list" where
  "scan ls = report (final ls)"

section \<open>Notions used in the statements\<close>

text \<open>The six directive keywords, the alternatives of group 1 of the opening pattern.\<close>

definition directives :: "string list" where
  "directives = [''if'', ''for'', ''switch'', ''case'', ''empty'', ''else'']"

text \<open>Whether \<^verbatim>\<open>re.search\<close> finds the opening or the closing pattern in a line.\<close>

definition open_matches :: "string \<Rightarrow> bool" where
  "open_matches l = (re_search open_pattern l \<noteq> None)"

definition close_matches :: "string \<Rightarrow> bool" where
  "close_matches l = (re_search close_pattern l \<noteq> None)"

text \<open>
  A parenthesized expression with no closing parenthesis inside, or nothing: the text
  that \<^verbatim>\<open>(\([^\)]*\))?\<close> consumes.
\<close>

definition paren_group :: "string \<Rightarrow> bool" where
  "paren_group grp =
     (grp = [] \<or>
      2 \<le> length grp \<and> hd grp = CHR ''('' \<and> last grp = CHR '')''
        \<and> CHR '')'' \<notin> set (butlast (tl grp)))"

text \<open>The character before the cursor after the text \<open>w\<close> has been consumed.\<close>

definition endp :: "char option \<Rightarrow> string \<Rightarrow> char option" where
  "endp p w = (if w = [] then p else Some (last w))"

text \<open>The numbers of the groups of a pattern.\<close>

primrec grp_ids :: "regex \<Rightarrow> nat set" where
  "grp_ids Epsilon = {}"
| "grp_ids (Lit c) = {}"
| "grp_ids Bol = {}"
| "grp_ids Wordb = {}"
| "grp_ids (Seq a b) = grp_ids a \<union> grp_ids b"
| "grp_ids (Alt a b) = grp_ids a \<union> grp_ids b"
| "grp_ids (Opt a) = grp_ids a"
| "grp_ids (Star k) = {}"
| "grp_ids (Grp n a) = insert n (grp_ids a)"

text \<open>The opening pattern after its group 1, and the closing pattern after its brace.\<close>

definition open_tail :: regex where
  "open_tail =
     seqs [Wordb, Star Space,
           Opt (Grp 2 (seqs [Lit CHR ''('', Star (NotChar CHR '')''), Lit CHR '')''])),
           Star Space, Lit CHR ''{'']"

definition close_tail :: regex where
  "close_tail =
     seqs [Star Space, Opt (Alt (lits ''@else'') (Alt (lits ''@empty'') (lits ''@case'')))]"

text \<open>
  Counters for the stack invariant: the number of calls of \<^verbatim>\<open>stack.pop()\<close> the loop
  makes on the lines \<open>ls\<close> from line number \<open>i\<close> and state \<open>st\<close> (a line pops when the
  closing pattern matches and the stack, after the opening check of the line, is not
  empty), and the numbers of lines that match the opening and the closing pattern.
\<close>

fun pops_from :: "nat \<Rightarrow> string list \<Rightarrow> state \<Rightarrow> nat" where
  "pops_from i [] st = 0"
| "pops_from i (l # ls) st =
     (if close_matches l \<and> stack (open_check i l st) \<noteq> [] then 1 else 0)
       + pops_from (Suc i) ls (step i l st)"

definition opens_in :: "string list \<Rightarrow> nat" where
  "opens_in ls = length (filter open_matches ls)"

definition closes_in :: "string list \<Rightarrow> nat" where
  "closes_in ls = length (filter close_matches ls)"

section \<open>The run of the program as a relation\<close>

text \<open>
  The same program as a relation between a document and an output of a run, with one rule
  for each branch of the code: the opening check (lines 11 to 14), the closing check
  (lines 16 to 20), the loop (line 9) and the report (lines 22 to 27). Nothing in the
  rules says that a document has one output only.
\<close>

inductive open_rel :: "nat \<Rightarrow> string \<Rightarrow> state \<Rightarrow> state \<Rightarrow> bool" where
  open_hit: "re_search open_pattern l = Some m \<Longrightarrow>
     open_rel i l st (st\<lparr>stack := stack st @ [(m 1, i)]\<rparr>)"
| open_miss: "re_search open_pattern l = None \<Longrightarrow> open_rel i l st st"

inductive close_rel :: "nat \<Rightarrow> string \<Rightarrow> state \<Rightarrow> state \<Rightarrow> bool" where
  close_pop: "re_search close_pattern l = Some m \<Longrightarrow> stack st \<noteq> [] \<Longrightarrow>
     close_rel i l st (st\<lparr>stack := butlast (stack st)\<rparr>)"
| close_unmatched: "re_search close_pattern l = Some m \<Longrightarrow> stack st = [] \<Longrightarrow>
     close_rel i l st (st\<lparr>out := out st @ [unmatched_msg i]\<rparr>)"
| close_miss: "re_search close_pattern l = None \<Longrightarrow> close_rel i l st st"

inductive loop_rel :: "nat \<Rightarrow> string list \<Rightarrow> state \<Rightarrow> state \<Rightarrow> bool" where
  loop_done: "loop_rel i [] st st"
| loop_line: "open_rel i l st st1 \<Longrightarrow> close_rel i l st1 st2 \<Longrightarrow>
     loop_rel (Suc i) ls st2 st3 \<Longrightarrow> loop_rel i (l # ls) st st3"

inductive run_rel :: "string list \<Rightarrow> string list \<Rightarrow> bool" where
  run_unclosed: "loop_rel 1 ls init st \<Longrightarrow> stack st \<noteq> [] \<Longrightarrow>
     run_rel ls (out st @ [''Unclosed control blocks:''] @ map opened_msg (stack st))"
| run_closed: "loop_rel 1 ls init st \<Longrightarrow> stack st = [] \<Longrightarrow>
     run_rel ls (out st @ [''All control blocks closed''])"

section \<open>Evaluation on concrete documents\<close>

lemmas scan_eval =
  scan_def final_def init_def step_def open_check_def close_check_def re_search_def
  open_pattern_def close_pattern_def seqs_def keyword_alt_def report_def
  unmatched_msg_def opened_msg_def str_tok_def str_nat.simps
  is_space_def is_word_def word_before_def word_after_def

section \<open>The matcher on the two patterns\<close>

subsection \<open>Repetition, literals and sequences\<close>

lemma endp_simps [simp]: "endp p [] = p" "endp p (c # cs) = endp (Some c) cs"
  by (simp_all add: endp_def)

lemma endp_append: "endp p (u @ v) = endp (endp p u) v"
  by (induction u arbitrary: p) simp_all

lemma star_nonempty: "star k p s g \<noteq> []"
  by (induction s arbitrary: p) simp_all

lemma star_groups: "r \<in> set (star k p s g) \<Longrightarrow> snd r = g"
  by (induction s arbitrary: p) (auto split: if_splits)

lemma star_self: "((p, s), g) \<in> set (star k p s g)"
  by (cases s) simp_all

lemma star_run: "\<forall>c\<in>set ws. in_cls k c \<Longrightarrow> ((endp p ws, s), g) \<in> set (star k p (ws @ s) g)"
  by (induction ws arbitrary: p) (simp_all add: star_self)

lemma lits_exact:
  "rmatch (lits w) (p, s) g =
     (if take (length w) s = w then [((endp p w, drop (length w) s), g)] else [])"
proof (induction w arbitrary: p s)
  case Nil
  show ?case by simp
next
  case (Cons c w)
  show ?case by (cases s) (simp_all add: Cons.IH)
qed

lemma seq_mem:
  "res \<in> set (rmatch (Seq a b) ps g) \<longleftrightarrow>
     (\<exists>m\<in>set (rmatch a ps g). res \<in> set (rmatch b (fst m) (snd m)))"
  by auto

lemma seq_nonempty:
  "m \<in> set (rmatch a ps g) \<Longrightarrow> rmatch b (fst m) (snd m) \<noteq> [] \<Longrightarrow> rmatch (Seq a b) ps g \<noteq> []"
  by auto

lemma rmatch_keeps_group:
  "n \<notin> grp_ids r \<Longrightarrow> res \<in> set (rmatch r ps g) \<Longrightarrow> snd res n = g n"
proof (induction r arbitrary: ps g res)
  case (Seq a b)
  from Seq.prems(2) obtain m where m: "m \<in> set (rmatch a ps g)"
    and r: "res \<in> set (rmatch b (fst m) (snd m))"
    unfolding seq_mem by blast
  from Seq.prems(1) have "n \<notin> grp_ids a" "n \<notin> grp_ids b" by simp_all
  then show ?case using Seq.IH(1)[OF _ m] Seq.IH(2)[OF _ r] by simp
next
  case (Star k)
  then show ?case by (simp add: star_groups)
next
  case (Grp j a)
  from Grp.prems(2) obtain m where m: "m \<in> set (rmatch a ps g)"
    and r: "snd res = (snd m)(j \<mapsto> take (length (snd ps) - length (snd (fst m))) (snd ps))"
    by auto
  from Grp.prems(1) have "n \<noteq> j" "n \<notin> grp_ids a" by simp_all
  then show ?case using Grp.IH[OF _ m] r by simp
qed (auto split: list.splits if_splits)

subsection \<open>The keyword alternatives\<close>

text \<open>At a position, the alternatives match the one keyword that begins the text, if any.\<close>

lemma keyword_alt_list:
  "rmatch keyword_alt (p, s) g =
     concat (map (\<lambda>w. if take (length w) s = w then [((endp p w, drop (length w) s), g)] else [])
       directives)"
  by (simp add: keyword_alt_def directives_def lits_exact del: lits.simps)

lemma keyword_alt_results:
  assumes "res \<in> set (rmatch keyword_alt (p, s) g)"
  shows "\<exists>w\<in>set directives. take (length w) s = w \<and> res = ((endp p w, drop (length w) s), g)"
  using assms unfolding keyword_alt_list by (auto split: if_splits)

lemma keyword_alt_exact:
  assumes "w \<in> set directives"
  shows "rmatch keyword_alt (p, w @ s) g = [((Some (last w), s), g)]"
proof -
  from assms consider "w = ''if''" | "w = ''for''" | "w = ''switch''" | "w = ''case''"
    | "w = ''empty''" | "w = ''else''"
    by (auto simp: directives_def)
  then show ?thesis
    by cases (simp_all add: keyword_alt_list directives_def)
qed

subsection \<open>The groups of a match of the opening pattern\<close>

text \<open>Every match of the opening pattern starts at \<^verbatim>\<open>@\<close> and has a directive keyword as group 1.\<close>

lemma open_pattern_parts: "open_pattern = Seq (Lit CHR ''@'') (Seq (Grp 1 keyword_alt) open_tail)"
  by (simp add: open_pattern_def open_tail_def seqs_def)

lemma open_tail_groups: "1 \<notin> grp_ids open_tail"
  by (simp add: open_tail_def seqs_def)

lemma open_pattern_first:
  "rmatch open_pattern (p, s) g \<noteq> [] \<Longrightarrow> \<exists>t. s = CHR ''@'' # t"
  by (cases s) (auto simp: open_pattern_parts split: if_splits)

lemma open_pattern_results:
  assumes "res \<in> set (rmatch open_pattern (p, s) g)"
  shows "\<exists>w\<in>set directives. take (Suc (length w)) s = CHR ''@'' # w \<and> snd res 1 = Some w"
proof -
  from assms obtain t where s: "s = CHR ''@'' # t"
    using open_pattern_first[of p s g] by (cases "rmatch open_pattern (p, s) g") auto
  from assms have "res \<in> set (rmatch (Seq (Grp 1 keyword_alt) open_tail) (Some CHR ''@'', t) g)"
    by (simp add: s open_pattern_parts)
  then obtain m where m: "m \<in> set (rmatch (Grp 1 keyword_alt) (Some CHR ''@'', t) g)"
    and r: "res \<in> set (rmatch open_tail (fst m) (snd m))"
    unfolding seq_mem by blast
  from m obtain k where k: "k \<in> set (rmatch keyword_alt (Some CHR ''@'', t) g)"
    and mk: "m = (fst k, (snd k)(1 \<mapsto> take (length t - length (snd (fst k))) t))"
    by auto
  from keyword_alt_results[OF k] obtain w where w: "w \<in> set directives"
    and tw: "take (length w) t = w" and kw: "k = ((endp (Some CHR ''@'') w, drop (length w) t), g)"
    by blast
  have "length (take (length w) t) = length w" using tw by simp
  then have "length w \<le> length t" by simp
  then have "take (length t - length (snd (fst k))) t = w"
    using tw by (simp add: kw)
  then have "snd m 1 = Some w" by (simp add: mk)
  moreover have "snd res 1 = snd m 1"
    using rmatch_keeps_group[OF open_tail_groups r] .
  ultimately show ?thesis using w tw by (auto simp: s)
qed

subsection \<open>The search over start positions\<close>

lemma search_from_hit:
  "rmatch r (p, s) Map.empty \<noteq> [] \<Longrightarrow>
     search_from r p s = Some (snd (hd (rmatch r (p, s) Map.empty)))"
  by (cases s; cases "rmatch r (p, s) Map.empty") simp_all

lemma search_from_origin:
  "search_from r p s = Some m \<Longrightarrow>
     \<exists>p' s'. rmatch r (p', s') Map.empty \<noteq> [] \<and> m = snd (hd (rmatch r (p', s') Map.empty))"
proof (induction s arbitrary: p)
  case Nil
  then obtain x xs where x: "rmatch r (p, []) Map.empty = x # xs" and "m = snd x"
    by (cases "rmatch r (p, []) Map.empty") simp_all
  then show ?case by (intro exI[of _ p] exI[of _ "[]"]) simp
next
  case (Cons c cs)
  show ?case
  proof (cases "rmatch r (p, c # cs) Map.empty")
    case Nil
    with Cons.prems have "search_from r (Some c) cs = Some m" by simp
    from Cons.IH[OF this] show ?thesis .
  next
    case (Cons x xs)
    with Cons.prems have "m = snd x" by simp
    with Cons show ?thesis by (intro exI[of _ p] exI[of _ "c # cs"]) simp
  qed
qed

lemma search_from_later:
  "rmatch r (endp p pre, t) Map.empty \<noteq> [] \<Longrightarrow> search_from r p (pre @ t) \<noteq> None"
proof (induction pre arbitrary: p)
  case Nil
  then show ?case by (simp add: search_from_hit)
next
  case (Cons c pre)
  show ?case
  proof (cases "rmatch r (p, c # pre @ t) Map.empty")
    case Nil
    then show ?thesis using Cons.IH[of "Some c"] Cons.prems by simp
  next
    case (Cons x xs)
    then show ?thesis by simp
  qed
qed

lemma search_from_skip:
  "(\<And>q c cs. c \<in> set pre \<Longrightarrow> rmatch r (q, c # cs) Map.empty = []) \<Longrightarrow>
     search_from r p (pre @ t) = search_from r (endp p pre) t"
  by (induction pre arbitrary: p) simp_all

subsection \<open>A sufficient shape for the opening pattern\<close>

text \<open>The word boundary after the keyword holds of itself: the next character is whitespace,
  a parenthesis or the brace.\<close>

lemma space_not_word: "is_space c \<Longrightarrow> \<not> is_word c"
  by (auto simp: is_space_def is_word_def Let_def)

lemma seq_star_run:
  "\<forall>c\<in>set ws. in_cls k c \<Longrightarrow> rmatch R (endp p ws, s) g \<noteq> [] \<Longrightarrow>
     rmatch (Seq (Star k) R) (p, ws @ s) g \<noteq> []"
  using seq_nonempty[of "((endp p ws, s), g)" "Star k" "(p, ws @ s)" g R] star_run[of ws k p s g]
  by simp

lemma seq_opt_skip: "rmatch R ps g \<noteq> [] \<Longrightarrow> rmatch (Seq (Opt a) R) ps g \<noteq> []"
  by simp

lemma seq_opt_take:
  "m \<in> set (rmatch a ps g) \<Longrightarrow> rmatch R (fst m) (snd m) \<noteq> [] \<Longrightarrow>
     rmatch (Seq (Opt a) R) ps g \<noteq> []"
  by (rule seq_nonempty[of m]) simp_all

lemma grp_mem:
  "m \<in> set (rmatch a ps g) \<Longrightarrow>
     (fst m, (snd m)(n \<mapsto> take (length (snd ps) - length (snd (fst m))) (snd ps)))
       \<in> set (rmatch (Grp n a) ps g)"
  by simp

lemma paren_group_match:
  assumes "CHR '')'' \<notin> set body"
  shows "\<exists>g'. ((Some CHR '')'', rest), g') \<in>
           set (rmatch (Grp 2 (seqs [Lit CHR ''('', Star (NotChar CHR '')''), Lit CHR '')'']))
                  (q, ''('' @ body @ '')'' @ rest) g)"
proof -
  have "\<forall>c\<in>set body. in_cls (NotChar CHR '')'') c" using assms by auto
  from star_run[OF this, of "Some CHR ''(''" "'')'' @ rest" g]
  have "((Some CHR '')'', rest), g) \<in>
          set (rmatch (seqs [Lit CHR ''('', Star (NotChar CHR '')''), Lit CHR '')''])
                 (q, ''('' @ body @ '')'' @ rest) g)"
    by (auto simp: seqs_def intro!: bexI[of _ "((endp (Some CHR ''('') body, '')'' @ rest), g)"])
  from grp_mem[OF this, of 2] show ?thesis
    by (intro exI) simp
qed

lemma paren_group_cases:
  assumes "paren_group grp" "grp \<noteq> []"
  obtains body where "grp = ''('' @ body @ '')''" "CHR '')'' \<notin> set body"
proof -
  from assms have l: "2 \<le> length grp" and h: "hd grp = CHR ''(''" and e: "last grp = CHR '')''"
    and b: "CHR '')'' \<notin> set (butlast (tl grp))"
    by (auto simp: paren_group_def)
  from l obtain t where t: "grp = hd grp # t" "t \<noteq> []"
    by (cases grp) (auto simp: Suc_le_eq)
  then have "last t = CHR '')''" using e by (metis last_ConsR)
  then have "t = butlast t @ '')''" using t(2) by (metis append_butlast_last_id)
  then have "grp = ''('' @ butlast (tl grp) @ '')''" using t(1) h
    by (metis append_Cons append_Nil list.sel(3))
  then show ?thesis using b that by blast
qed

lemma brace_tail_match:
  assumes "\<forall>c\<in>set ws. is_space c"
  shows "rmatch (Seq (Star Space) (Seq (Lit CHR ''{'') Epsilon)) (q, ws @ ''{'' @ post) g \<noteq> []"
  using assms by (intro seq_star_run) simp_all

lemma word_after_tail:
  assumes "\<forall>c\<in>set ws1. is_space c" "\<forall>c\<in>set ws2. is_space c" "paren_group grp"
  shows "\<not> word_after (ws1 @ grp @ ws2 @ ''{'' @ post)"
proof (cases ws1)
  case (Cons c cs)
  then show ?thesis using assms(1) by (simp add: word_after_def space_not_word)
next
  case Nil
  note n1 = this
  show ?thesis
  proof (cases grp)
    case (Cons c cs)
    then have "c = CHR ''(''" using assms(3) by (auto simp: paren_group_def)
    then show ?thesis using n1 Cons by (simp add: word_after_def is_word_def)
  next
    case Nil
    show ?thesis
    proof (cases ws2)
      case (Cons c cs)
      then show ?thesis using assms(2) n1 Nil by (simp add: word_after_def space_not_word)
    next
      case Nil
      then show ?thesis using n1 \<open>grp = []\<close> by (simp add: word_after_def is_word_def)
    qed
  qed
qed

lemma open_tail_match:
  assumes s1: "\<forall>c\<in>set ws1. is_space c" and s2: "\<forall>c\<in>set ws2. is_space c"
    and grp: "paren_group grp" and c: "is_word c"
  shows "rmatch open_tail (Some c, ws1 @ grp @ ws2 @ ''{'' @ post) g \<noteq> []"
proof -
  let ?G = "Grp 2 (seqs [Lit CHR ''('', Star (NotChar CHR '')''), Lit CHR '')''])"
  let ?B = "Seq (Star Space) (Seq (Lit CHR ''{'') Epsilon)"
  have tail: "open_tail = Seq Wordb (Seq (Star Space) (Seq (Opt ?G) ?B))"
    by (simp add: open_tail_def seqs_def)
  have opt: "rmatch (Seq (Opt ?G) ?B) (q, grp @ ws2 @ ''{'' @ post) g \<noteq> []" for q
  proof (cases "grp = []")
    case True
    then show ?thesis using brace_tail_match[OF s2] by (intro seq_opt_skip) simp
  next
    case False
    then obtain body where b: "grp = ''('' @ body @ '')''" and nb: "CHR '')'' \<notin> set body"
      using grp by (auto elim: paren_group_cases)
    from paren_group_match[OF nb, of "ws2 @ ''{'' @ post" q g]
    obtain g' where m: "((Some CHR '')'', ws2 @ ''{'' @ post), g')
        \<in> set (rmatch ?G (q, grp @ ws2 @ ''{'' @ post) g)"
      by (auto simp: b)
    show ?thesis
      by (rule seq_opt_take[OF m]) (use brace_tail_match[OF s2] in simp)
  qed
  have s1': "\<forall>c\<in>set ws1. in_cls Space c" using s1 by simp
  have "rmatch (Seq (Star Space) (Seq (Opt ?G) ?B)) (Some c, ws1 @ grp @ ws2 @ ''{'' @ post) g \<noteq> []"
    by (rule seq_star_run[OF s1' opt])
  moreover have "word_before (Some c) \<noteq> word_after (ws1 @ grp @ ws2 @ ''{'' @ post)"
    using word_after_tail[OF s1 s2 grp] c by (simp add: word_before_def)
  ultimately show ?thesis
    unfolding tail by (simp del: rmatch.simps(5) add: rmatch.simps(5)[of Wordb])
qed

lemma directive_last_word: "w \<in> set directives \<Longrightarrow> is_word (last w)"
  by (auto simp: directives_def is_word_def)

lemma open_pattern_match:
  assumes w: "w \<in> set directives"
    and s1: "\<forall>c\<in>set ws1. is_space c" and s2: "\<forall>c\<in>set ws2. is_space c"
    and grp: "paren_group grp"
  shows "rmatch open_pattern (p, ''@'' @ w @ ws1 @ grp @ ws2 @ ''{'' @ post) g \<noteq> []"
proof -
  let ?t = "ws1 @ grp @ ws2 @ ''{'' @ post"
  have k: "rmatch keyword_alt (Some CHR ''@'', w @ ?t) g = [((Some (last w), ?t), g)]"
    by (rule keyword_alt_exact[OF w])
  have m: "((Some (last w), ?t), g(1 \<mapsto> take (length (w @ ?t) - length ?t) (w @ ?t)))
             \<in> set (rmatch (Grp 1 keyword_alt) (Some CHR ''@'', w @ ?t) g)"
    using grp_mem[of "((Some (last w), ?t), g)" keyword_alt "(Some CHR ''@'', w @ ?t)" g 1]
    by (simp only: k list.set_intros fst_conv snd_conv)
  have "rmatch (Seq (Grp 1 keyword_alt) open_tail) (Some CHR ''@'', w @ ?t) g \<noteq> []"
    by (rule seq_nonempty[OF m])
       (simp only: fst_conv snd_conv open_tail_match[OF s1 s2 grp directive_last_word[OF w]]
          not_False_eq_True)
  then show ?thesis
    by (simp add: open_pattern_parts del: rmatch.simps(5) add: rmatch.simps(5)[of "Lit c" for c])
qed

lemma open_pattern_other_char: "c \<noteq> CHR ''@'' \<Longrightarrow> rmatch open_pattern (q, c # cs) g = []"
  by (simp add: open_pattern_parts)

lemma keyword_alt_mem:
  assumes "v \<in> set directives" "take (length v) s = v"
  shows "((endp p v, drop (length v) s), g) \<in> set (rmatch keyword_alt (p, s) g)"
proof -
  have "((endp p v, drop (length v) s), g)
      \<in> set ((\<lambda>w. if take (length w) s = w then [((endp p w, drop (length w) s), g)] else []) v)"
    using assms(2) by simp
  then show ?thesis
    unfolding keyword_alt_list set_concat set_map using assms(1) by blast
qed

lemma directive_prefix_unique:
  assumes w: "w \<in> set directives" and v: "v \<in> set directives"
    and pv: "take (length v) (w @ t) = v"
  shows "v = w"
proof -
  have "rmatch keyword_alt (None, w @ t) Map.empty = [((Some (last w), t), Map.empty)]"
    by (rule keyword_alt_exact[OF w])
  moreover note keyword_alt_mem[OF v pv, of None Map.empty]
  ultimately have d: "drop (length v) (w @ t) = t" by simp
  have "length (take (length v) (w @ t)) = length v" using pv by simp
  then have le: "length v \<le> length w + length t" by simp
  have "length (drop (length v) (w @ t)) = length t" using d by simp
  then have "length w + length t - length v = length t" by simp
  with le have "length v = length w" by arith
  then show ?thesis using pv by simp
qed

lemma search_open_skip:
  assumes "CHR ''@'' \<notin> set pre"
  shows "search_from open_pattern p (pre @ t) = search_from open_pattern (endp p pre) t"
proof (rule search_from_skip)
  fix q c cs
  assume "c \<in> set pre"
  with assms have "c \<noteq> CHR ''@''" by blast
  then show "rmatch open_pattern (q, c # cs) Map.empty = []"
    by (rule open_pattern_other_char)
qed

lemma re_search_open_shape:
  assumes w: "w \<in> set directives"
    and s1: "\<forall>c\<in>set ws1. is_space c" and s2: "\<forall>c\<in>set ws2. is_space c"
    and grp: "paren_group grp"
  shows "\<exists>m tok. re_search open_pattern (pre @ ''@'' @ w @ ws1 @ grp @ ws2 @ ''{'' @ post) = Some m
           \<and> m 1 = Some tok \<and> tok \<in> set directives \<and> (CHR ''@'' \<notin> set pre \<longrightarrow> tok = w)"
proof -
  define u where "u = ws1 @ grp @ ws2 @ ''{'' @ post"
  define t where "t = ''@'' @ w @ u"
  have ne: "rmatch open_pattern (q, t) Map.empty \<noteq> []" for q
    unfolding t_def u_def by (rule open_pattern_match[OF w s1 s2 grp])
  from search_from_later[OF ne, of None pre]
  obtain m where m: "search_from open_pattern None (pre @ t) = Some m"
    by blast
  from search_from_origin[OF m]
  obtain p' s' where o: "rmatch open_pattern (p', s') Map.empty \<noteq> []"
    and mo: "m = snd (hd (rmatch open_pattern (p', s') Map.empty))"
    by blast
  from o have "hd (rmatch open_pattern (p', s') Map.empty) \<in> set (rmatch open_pattern (p', s') Map.empty)"
    by simp
  from open_pattern_results[OF this] obtain tok where tok: "tok \<in> set directives" "m 1 = Some tok"
    unfolding mo by blast
  have "tok = w" if "CHR ''@'' \<notin> set pre"
  proof -
    have "search_from open_pattern None (pre @ t) = search_from open_pattern (endp None pre) t"
      by (rule search_open_skip[OF that])
    also have "\<dots> = Some (snd (hd (rmatch open_pattern (endp None pre, t) Map.empty)))"
      by (rule search_from_hit[OF ne])
    finally have m': "m = snd (hd (rmatch open_pattern (endp None pre, t) Map.empty))"
      using m by simp
    have "hd (rmatch open_pattern (endp None pre, t) Map.empty)
            \<in> set (rmatch open_pattern (endp None pre, t) Map.empty)"
      using ne by simp
    from open_pattern_results[OF this] obtain v where v: "v \<in> set directives"
      "take (Suc (length v)) t = CHR ''@'' # v" "m 1 = Some v"
      unfolding m' by blast
    from v(2) have pv: "take (length v) (w @ u) = v" by (simp add: t_def)
    have "v = w" by (rule directive_prefix_unique[OF w v(1) pv])
    then show ?thesis using v(3) tok(2) by simp
  qed
  then show ?thesis using m tok unfolding re_search_def t_def u_def by blast
qed

subsection \<open>The closing pattern\<close>

text \<open>The anchor confines a match to the start of the line, and the part after the brace
  always matches.\<close>

lemma close_pattern_parts:
  "close_pattern = Seq Bol (Seq (Star Space) (Seq (Lit CHR ''}'') close_tail))"
  by (simp add: close_pattern_def close_tail_def seqs_def)

lemma close_tail_nonempty: "rmatch close_tail ps g \<noteq> []"
proof -
  have "(ps, g) \<in> set (rmatch (Star Space) ps g)"
    by (cases ps) (simp add: star_self)
  moreover have "rmatch (Seq (Opt a) Epsilon) q h \<noteq> []" for a q h
    by simp
  ultimately show ?thesis
    unfolding close_tail_def seqs_def foldr.simps o_apply id_apply
    by (rule seq_nonempty)
qed

lemma seq_star_lit:
  "\<not> in_cls k c \<Longrightarrow>
     rmatch (Seq (Star k) (Seq (Lit c) R)) (p, s) g =
       (case dropWhile (in_cls k) s of
          [] \<Rightarrow> []
        | x # t \<Rightarrow> if x = c then rmatch R (Some c, t) g else [])"
proof (induction s arbitrary: p)
  case Nil
  show ?case by simp
next
  case (Cons x xs)
  show ?case
  proof (cases "in_cls k x")
    case True
    with Cons.prems have "x \<noteq> c" by auto
    with True Cons.IH[OF Cons.prems, of "Some x"] show ?thesis by simp
  next
    case False
    then show ?thesis by simp
  qed
qed

lemma close_pattern_at_start:
  "rmatch close_pattern (None, l) g \<noteq> [] \<longleftrightarrow> take 1 (dropWhile is_space l) = ''}''"
proof -
  have ns: "\<not> in_cls Space CHR ''}''" by (simp add: is_space_def)
  have sp: "in_cls Space = is_space" by (rule ext) simp
  have "rmatch close_pattern (None, l) g =
      rmatch (Seq (Star Space) (Seq (Lit CHR ''}'') close_tail)) (None, l) g"
    unfolding close_pattern_parts by simp
  also have "\<dots> = (case dropWhile is_space l of [] \<Rightarrow> []
        | x # t \<Rightarrow> if x = CHR ''}'' then rmatch close_tail (Some CHR ''}'', t) g else [])"
    unfolding seq_star_lit[OF ns] sp ..
  finally have eq: "rmatch close_pattern (None, l) g = (case dropWhile is_space l of [] \<Rightarrow> []
        | x # t \<Rightarrow> if x = CHR ''}'' then rmatch close_tail (Some CHR ''}'', t) g else [])" .
  show ?thesis
  proof (cases "dropWhile is_space l")
    case Nil
    show ?thesis unfolding eq Nil by simp
  next
    case (Cons x t)
    show ?thesis unfolding eq Cons by (simp add: close_tail_nonempty)
  qed
qed

lemma close_pattern_not_start: "rmatch close_pattern (Some c, s) g = []"
  unfolding close_pattern_parts by simp

lemma search_close_later: "search_from close_pattern (Some c) s = None"
  by (induction s arbitrary: c) (simp_all add: close_pattern_not_start)

lemma close_matches_iff: "close_matches l \<longleftrightarrow> take 1 (dropWhile is_space l) = ''}''"
proof -
  have "re_search close_pattern l \<noteq> None \<longleftrightarrow> rmatch close_pattern (None, l) Map.empty \<noteq> []"
    unfolding re_search_def
    by (cases l; cases "rmatch close_pattern (None, l) Map.empty")
       (simp_all add: search_close_later)
  then show ?thesis unfolding close_matches_def close_pattern_at_start .
qed

section \<open>The checks of one line\<close>

lemma open_check_cases:
  "open_check i l st =
     (case re_search open_pattern l of None \<Rightarrow> st
      | Some m \<Rightarrow> st\<lparr>stack := stack st @ [(m 1, i)]\<rparr>)"
  by (simp add: open_check_def)

lemma re_search_open_directive:
  assumes "re_search open_pattern l = Some m"
  shows "\<exists>w\<in>set directives. m 1 = Some w"
proof -
  from search_from_origin[OF assms[unfolded re_search_def]]
  obtain p' s' where o: "rmatch open_pattern (p', s') Map.empty \<noteq> []"
    and mo: "m = snd (hd (rmatch open_pattern (p', s') Map.empty))"
    by blast
  from o have "hd (rmatch open_pattern (p', s') Map.empty) \<in> set (rmatch open_pattern (p', s') Map.empty)"
    by simp
  from open_pattern_results[OF this] show ?thesis unfolding mo by blast
qed

lemma open_check_stack:
  "stack (open_check i l st) = stack st @ (if open_matches l then [(the (re_search open_pattern l) 1, i)] else [])"
  by (cases "re_search open_pattern l") (simp_all add: open_check_def open_matches_def)

lemma open_check_out: "out (open_check i l st) = out st"
  by (cases "re_search open_pattern l") (simp_all add: open_check_def)

lemma open_check_length:
  "length (stack (open_check i l st)) = length (stack st) + (if open_matches l then 1 else 0)"
  by (simp add: open_check_stack)

lemma close_check_cases:
  "close_check i l st =
     (if \<not> close_matches l then st
      else if stack st \<noteq> [] then st\<lparr>stack := butlast (stack st)\<rparr>
      else st\<lparr>out := out st @ [unmatched_msg i]\<rparr>)"
  by (cases "re_search close_pattern l") (simp_all add: close_check_def close_matches_def)

lemma close_check_length:
  "length (stack (close_check i l st)) =
     length (stack st) - (if close_matches l \<and> stack st \<noteq> [] then 1 else 0)"
  by (simp add: close_check_cases)

lemma scan_from_append:
  "scan_from i (ls1 @ ls2) st = scan_from (i + length ls1) ls2 (scan_from i ls1 st)"
  by (induction ls1 arbitrary: i st) simp_all

text \<open>
  The comment on line 10 of the program lists \<^verbatim>\<open>@case 'x' {\<close> among the opening forms. The
  pattern of line 11 does not match such a line: after the keyword it admits only
  whitespace and one parenthesized group before the brace.
\<close>

lemma case_with_literal_not_matched: "re_search open_pattern ''@case 'a' {'' = None"
  by (simp add: scan_eval)

section \<open>The printed lines\<close>

lemma str_nat_last_digit: "str_nat n \<noteq> [] \<and> last (str_nat n) \<in> set ''0123456789''"
proof -
  have d: "''0123456789'' ! k \<in> set ''0123456789''" if "k < 10" for k
    using that by (intro nth_mem) simp
  show ?thesis
  proof (cases "n < 10")
    case True
    then show ?thesis using d[of n] by (subst (1 2) str_nat.simps) simp
  next
    case False
    have "n mod 10 < 10" by simp
    then show ?thesis using d[of "n mod 10"] False by (subst (1 2) str_nat.simps) simp
  qed
qed

lemma unmatched_msg_not_closed: "unmatched_msg i \<noteq> ''All control blocks closed''"
  by (simp add: unmatched_msg_def)

lemma opened_msg_not_closed: "opened_msg e \<noteq> ''All control blocks closed''"
proof
  assume a: "opened_msg e = ''All control blocks closed''"
  have "last (opened_msg e) = last (str_nat (snd e))"
    using str_nat_last_digit[of "snd e"] by (simp add: opened_msg_def)
  then have "last ''All control blocks closed'' \<in> set ''0123456789''"
    using str_nat_last_digit[of "snd e"] a by simp
  then show False by simp
qed

lemma step_out:
  "set (out (step i l st)) \<subseteq> set (out st) \<union> range unmatched_msg"
  by (auto simp: step_def close_check_cases open_check_out)

lemma scan_from_out:
  "set (out (scan_from i ls st)) \<subseteq> set (out st) \<union> range unmatched_msg"
proof (induction ls arbitrary: i st)
  case Nil
  show ?case by simp
next
  case (Cons l ls)
  show ?case using Cons.IH[of "Suc i" "step i l st"] step_out[of i l st] by auto
qed

lemma final_out_not_closed: "''All control blocks closed'' \<notin> set (out (final ls))"
proof
  assume "''All control blocks closed'' \<in> set (out (final ls))"
  then have "''All control blocks closed'' \<in> range unmatched_msg"
    using scan_from_out[of 1 ls init] by (auto simp: final_def init_def)
  then obtain i where "''All control blocks closed'' = unmatched_msg i" ..
  then show False using unmatched_msg_not_closed[of i] by simp
qed

section \<open>Counting pushes and pops\<close>

lemma step_stack_count:
  "length (stack (step i l st))
     + (if close_matches l \<and> stack (open_check i l st) \<noteq> [] then 1 else 0)
   = length (stack st) + (if open_matches l then 1 else 0)"
proof -
  have n: "(stack (open_check i l st) \<noteq> []) = (0 < length (stack (open_check i l st)))"
    by simp
  show ?thesis
    unfolding step_def close_check_length n open_check_length
    by (simp split: if_splits)
qed

lemma step_out_count:
  "length (out (step i l st)) + (if close_matches l \<and> stack (open_check i l st) \<noteq> [] then 1 else 0)
   = length (out st) + (if close_matches l then 1 else 0)"
  by (simp add: step_def close_check_cases open_check_out)

lemma scan_from_stack_count:
  "length (stack (scan_from i ls st)) + pops_from i ls st = length (stack st) + opens_in ls"
proof (induction ls arbitrary: i st)
  case Nil
  show ?case by (simp add: opens_in_def)
next
  case (Cons l ls)
  show ?case
    using Cons.IH[of "Suc i" "step i l st"] step_stack_count[of i l st]
    by (simp add: opens_in_def split: if_splits)
qed

lemma scan_from_out_count:
  "length (out (scan_from i ls st)) + pops_from i ls st = length (out st) + closes_in ls"
proof (induction ls arbitrary: i st)
  case Nil
  show ?case by (simp add: closes_in_def)
next
  case (Cons l ls)
  show ?case
    using Cons.IH[of "Suc i" "step i l st"] step_out_count[of i l st]
    by (simp add: closes_in_def split: if_splits)
qed

section \<open>The entries of the stack\<close>

lemma step_stack_entries:
  assumes "e \<in> set (stack (step i l st))"
  shows "e \<in> set (stack st) \<or> (snd e = i \<and> (\<exists>m. re_search open_pattern l = Some m \<and> m 1 = fst e))"
proof -
  have "set (stack (step i l st)) \<subseteq> set (stack (open_check i l st))"
    by (auto simp: step_def close_check_cases dest: in_set_butlastD)
  with assms have "e \<in> set (stack (open_check i l st))" by blast
  then show ?thesis
    by (cases "re_search open_pattern l") (auto simp: open_check_def)
qed

lemma scan_from_stack_entries:
  assumes "e \<in> set (stack (scan_from i ls st))"
  shows "e \<in> set (stack st) \<or>
     (i \<le> snd e \<and> snd e < i + length ls
       \<and> (\<exists>m. re_search open_pattern (ls ! (snd e - i)) = Some m \<and> m 1 = fst e))"
  using assms
proof (induction ls arbitrary: i st)
  case Nil
  then show ?case by simp
next
  case (Cons l ls)
  from Cons.prems have "e \<in> set (stack (scan_from (Suc i) ls (step i l st)))" by simp
  from Cons.IH[OF this] consider (old) "e \<in> set (stack (step i l st))"
    | (new) "Suc i \<le> snd e" "snd e < Suc i + length ls"
        "\<exists>m. re_search open_pattern (ls ! (snd e - Suc i)) = Some m \<and> m 1 = fst e"
    by blast
  then show ?case
  proof cases
    case old
    from step_stack_entries[OF old] show ?thesis by auto
  next
    case new
    from new(1) have "snd e - i = Suc (snd e - Suc i)" by simp
    then have "(l # ls) ! (snd e - i) = ls ! (snd e - Suc i)" by simp
    with new show ?thesis by simp
  qed
qed

lemma sorted_wrt_butlastI: "sorted_wrt P xs \<Longrightarrow> sorted_wrt P (butlast xs)"
  by (cases xs rule: rev_cases) (simp_all add: sorted_wrt_append)

lemma step_stack_sorted:
  assumes "sorted_wrt (<) (map snd (stack st))" "\<forall>e\<in>set (stack st). snd e < i"
  shows "sorted_wrt (<) (map snd (stack (step i l st))) \<and> (\<forall>e\<in>set (stack (step i l st)). snd e < Suc i)"
proof -
  have o: "sorted_wrt (<) (map snd (stack (open_check i l st)))
      \<and> (\<forall>e\<in>set (stack (open_check i l st)). snd e < Suc i)"
    using assms
    by (cases "re_search open_pattern l") (auto simp: open_check_def sorted_wrt_append less_Suc_eq)
  have b: "sorted_wrt (<) (map snd (butlast xs))" if "sorted_wrt (<) (map snd xs)"
    for xs :: "(string option \<times> nat) list"
    using sorted_wrt_butlastI[OF that] by (simp add: map_butlast)
  show ?thesis
    using o b[of "stack (open_check i l st)"]
    by (auto simp: step_def close_check_cases dest: in_set_butlastD)
qed

lemma scan_from_stack_sorted:
  assumes "sorted_wrt (<) (map snd (stack st))" "\<forall>e\<in>set (stack st). snd e < i"
  shows "sorted_wrt (<) (map snd (stack (scan_from i ls st)))"
  using assms
proof (induction ls arbitrary: i st)
  case Nil
  then show ?case by simp
next
  case (Cons l ls)
  from step_stack_sorted[OF Cons.prems, of l]
  show ?case using Cons.IH[of "step i l st" "Suc i"] by simp
qed

section \<open>The relation and the function\<close>

lemma open_rel_iff: "open_rel i l st st' \<longleftrightarrow> st' = open_check i l st"
  by (cases "re_search open_pattern l")
     (auto simp: open_check_def open_rel.simps simp del: One_nat_def)

lemma close_rel_iff: "close_rel i l st st' \<longleftrightarrow> st' = close_check i l st"
  by (cases "re_search close_pattern l")
     (auto simp: close_check_def close_rel.simps simp del: One_nat_def)

lemma loop_rel_scan_from: "loop_rel i ls st (scan_from i ls st)"
proof (induction ls arbitrary: i st)
  case Nil
  show ?case by (simp add: loop_done)
next
  case (Cons l ls)
  have "open_rel i l st (open_check i l st)" by (simp add: open_rel_iff)
  moreover have "close_rel i l (open_check i l st) (step i l st)"
    by (simp add: close_rel_iff step_def)
  ultimately show ?case using Cons[of "Suc i" "step i l st"] by (simp add: loop_line)
qed

lemma loop_rel_unique: "loop_rel i ls st st' \<Longrightarrow> st' = scan_from i ls st"
  by (induction rule: loop_rel.induct) (simp_all add: open_rel_iff close_rel_iff step_def)

lemma run_rel_scan: "run_rel ls (scan ls)"
proof (cases "stack (final ls) = []")
  case True
  have "loop_rel 1 ls init (final ls)" unfolding final_def by (rule loop_rel_scan_from)
  from run_closed[OF this True] show ?thesis by (simp add: scan_def report_def True)
next
  case False
  have "loop_rel 1 ls init (final ls)" unfolding final_def by (rule loop_rel_scan_from)
  from run_unclosed[OF this False] show ?thesis by (simp add: scan_def report_def False)
qed

lemma run_rel_unique: "run_rel ls xs \<Longrightarrow> xs = scan ls"
  by (erule run_rel.cases) (auto simp: scan_def report_def final_def dest!: loop_rel_unique)

section \<open>The claims\<close>

text \<open>
  C1, as the claim states it, fails: for the one-line document \<^verbatim>\<open>}\<close> the message
  \<^verbatim>\<open>All control blocks closed\<close> is printed although an unmatched-closer message was
  printed before it.
\<close>

theorem all_closed_despite_unmatched_closer:
  "\<not> ((''All control blocks closed'' \<in> set (scan [''}'']))
        = (stack (final [''}'']) = [] \<and> unmatched_msg 1 \<notin> set (scan [''}''])))"
proof -
  have s: "scan [''}''] = [unmatched_msg 1, ''All control blocks closed'']"
    by (simp add: scan_eval)
  show ?thesis unfolding s by simp
qed

text \<open>
  C1, amended. For every document, the message \<^verbatim>\<open>All control blocks closed\<close> is printed
  if and only if the stack is empty after the last line; it is then printed once, as the
  last line of the output, after the unmatched-closer messages of the scan, if any.
\<close>

theorem all_closed_iff_stack_empty:
  "(''All control blocks closed'' \<in> set (scan ls)) = (stack (final ls) = [])
   \<and> count_list (scan ls) ''All control blocks closed'' = (if stack (final ls) = [] then 1 else 0)
   \<and> scan ls = (if stack (final ls) = [] then out (final ls) @ [''All control blocks closed'']
                 else out (final ls) @ ''Unclosed control blocks:'' # map opened_msg (stack (final ls)))"
proof (intro conjI)
  have o: "''All control blocks closed'' \<notin> set (out (final ls))"
    by (rule final_out_not_closed)
  have m: "''All control blocks closed'' \<notin> set (map opened_msg (stack (final ls)))"
  proof
    assume "''All control blocks closed'' \<in> set (map opened_msg (stack (final ls)))"
    then obtain e where "''All control blocks closed'' = opened_msg e"
      unfolding set_map ..
    then show False using opened_msg_not_closed[of e] by simp
  qed
  show "(''All control blocks closed'' \<in> set (scan ls)) = (stack (final ls) = [])"
    using o m by (simp add: scan_def report_def)
  have c0: "count_list xs x = 0" if "x \<notin> set xs" for xs :: "string list" and x
    using that by (simp add: count_list_0_iff)
  show "count_list (scan ls) ''All control blocks closed'' = (if stack (final ls) = [] then 1 else 0)"
    using c0[OF o] c0[OF m] by (simp add: scan_def report_def)
  show "scan ls = (if stack (final ls) = [] then out (final ls) @ [''All control blocks closed'']
                 else out (final ls) @ ''Unclosed control blocks:'' # map opened_msg (stack (final ls)))"
    by (simp add: scan_def report_def)
qed

text \<open>
  C4. For the three-line document \<^verbatim>\<open>@if (x) {\<close> / \<^verbatim>\<open>} @else {\<close> / \<^verbatim>\<open>}\<close> the output
  is exactly \<^verbatim>\<open>All control blocks closed\<close>. After line 1 the stack holds the \<^verbatim>\<open>if\<close>
  entry; on line 2 the opening check runs first and pushes an \<^verbatim>\<open>else\<close> entry, the closing
  check runs second and pops one entry, so the line leaves the stack as it found it; line 3
  pops the last entry.
\<close>

theorem else_line_pushes_then_pops:
  "scan [''@if (x) {'', ''} @else {'', ''}''] = [''All control blocks closed'']
   \<and> stack (scan_from 1 [''@if (x) {''] init) = [(Some ''if'', 1)]
   \<and> stack (open_check 2 ''} @else {'' \<lparr>stack = [(Some ''if'', 1)], out = []\<rparr>)
       = [(Some ''if'', 1), (Some ''else'', 2)]
   \<and> stack (close_check 2 ''} @else {'' \<lparr>stack = [(Some ''if'', 1), (Some ''else'', 2)], out = []\<rparr>)
       = [(Some ''if'', 1)]
   \<and> step 2 ''} @else {'' \<lparr>stack = [(Some ''if'', 1)], out = []\<rparr>
       = \<lparr>stack = [(Some ''if'', 1)], out = []\<rparr>"
proof (intro conjI)
  show "scan [''@if (x) {'', ''} @else {'', ''}''] = [''All control blocks closed'']"
    by (simp add: scan_eval)
  show "stack (scan_from 1 [''@if (x) {''] init) = [(Some ''if'', 1)]"
    by (simp add: scan_eval)
  show "stack (open_check 2 ''} @else {'' \<lparr>stack = [(Some ''if'', 1)], out = []\<rparr>)
       = [(Some ''if'', 1), (Some ''else'', 2)]"
    by (simp add: scan_eval)
  show "stack (close_check 2 ''} @else {'' \<lparr>stack = [(Some ''if'', 1), (Some ''else'', 2)], out = []\<rparr>)
       = [(Some ''if'', 1)]"
    by (simp add: scan_eval)
  show "step 2 ''} @else {'' \<lparr>stack = [(Some ''if'', 1)], out = []\<rparr>
       = \<lparr>stack = [(Some ''if'', 1)], out = []\<rparr>"
    by (simp add: scan_eval)
qed

text \<open>
  C8. The closing pattern matches a line exactly when the line, with its leading whitespace
  removed, begins with a closing brace; whatever follows the brace (whitespace, one of
  \<^verbatim>\<open>@else\<close>, \<^verbatim>\<open>@empty\<close>, \<^verbatim>\<open>@case\<close>, or anything else) does not matter. The closing check
  of a line does one thing at most: nothing when the pattern does not match, one pop when
  the stack is not empty, one unmatched-closer message when it is.
\<close>

theorem close_pattern_characterised:
  "close_matches l = (take 1 (dropWhile is_space l) = ''}'')
   \<and> close_matches (filter is_space ws @ ''}'' @ rest)
   \<and> close_check i l st =
       (if \<not> close_matches l then st
        else if stack st \<noteq> [] then st\<lparr>stack := butlast (stack st)\<rparr>
        else st\<lparr>out := out st @ [unmatched_msg i]\<rparr>)
   \<and> (length (stack st) - length (stack (close_check i l st)))
       + (length (out (close_check i l st)) - length (out st)) \<le> 1"
proof (intro conjI)
  show "close_matches l = (take 1 (dropWhile is_space l) = ''}'')"
    by (rule close_matches_iff)
  have "\<not> is_space CHR ''}''" by (simp add: is_space_def)
  then have "dropWhile is_space (filter is_space ws @ ''}'' @ rest) = ''}'' @ rest"
    by (simp add: dropWhile_append3)
  then show "close_matches (filter is_space ws @ ''}'' @ rest)"
    unfolding close_matches_iff by simp
  show "close_check i l st =
       (if \<not> close_matches l then st
        else if stack st \<noteq> [] then st\<lparr>stack := butlast (stack st)\<rparr>
        else st\<lparr>out := out st @ [unmatched_msg i]\<rparr>)"
    by (rule close_check_cases)
  show "(length (stack st) - length (stack (close_check i l st)))
       + (length (out (close_check i l st)) - length (out st)) \<le> 1"
    using close_check_length[of i l st] by (auto simp: close_check_cases)
qed

text \<open>
  C10. A line pushes at most one entry and pops at most one entry, so it changes the size
  of the stack by at most one in either direction. The line \<^verbatim>\<open>@if (x) { @for (y) {\<close>
  pushes the first keyword only, and the line \<^verbatim>\<open>}}\<close> pops once.
\<close>

theorem one_push_one_pop_per_line:
  "length (stack st) \<le> length (stack (open_check i l st))
   \<and> length (stack (open_check i l st)) \<le> length (stack st) + 1
   \<and> length (stack (close_check i l st)) \<le> length (stack st)
   \<and> length (stack st) \<le> length (stack (close_check i l st)) + 1
   \<and> length (stack (step i l st)) \<le> length (stack st) + 1
   \<and> length (stack st) \<le> length (stack (step i l st)) + 1
   \<and> stack (open_check i ''@if (x) { @for (y) {'' st) = stack st @ [(Some ''if'', i)]
   \<and> stack (close_check i ''}}'' (st\<lparr>stack := [a, b]\<rparr>)) = [a]"
proof (intro conjI)
  show "length (stack st) \<le> length (stack (open_check i l st))"
    by (simp add: open_check_length)
  show "length (stack (open_check i l st)) \<le> length (stack st) + 1"
    by (simp add: open_check_length)
  show "length (stack (close_check i l st)) \<le> length (stack st)"
    by (simp add: close_check_length)
  show "length (stack st) \<le> length (stack (close_check i l st)) + 1"
    by (simp add: close_check_length)
  show "length (stack (step i l st)) \<le> length (stack st) + 1"
    using close_check_length[of i l "open_check i l st"] open_check_length[of i l st]
    unfolding step_def by (auto split: if_splits)
  show "length (stack st) \<le> length (stack (step i l st)) + 1"
    using close_check_length[of i l "open_check i l st"] open_check_length[of i l st]
    unfolding step_def by (auto split: if_splits)
  show "stack (open_check i ''@if (x) { @for (y) {'' st) = stack st @ [(Some ''if'', i)]"
    by (simp add: scan_eval)
  show "stack (close_check i ''}}'' (st\<lparr>stack := [a, b]\<rparr>)) = [a]"
    by (simp add: scan_eval)
qed

text \<open>
  C3, as the claim states it, fails: in \<^verbatim>\<open>@if (x) y {\<close> the keyword and a parenthesized
  expression are followed, after other content, by an opening brace, and the opening pattern
  does not match, so nothing is pushed.
\<close>

theorem open_pattern_needs_adjacent_brace:
  "re_search open_pattern ''@if (x) y {'' = None
   \<and> \<not> open_matches ''@if (x) y {''
   \<and> open_check 1 ''@if (x) y {'' init = init"
proof (intro conjI)
  show n: "re_search open_pattern ''@if (x) y {'' = None"
    by (simp add: scan_eval)
  show "\<not> open_matches ''@if (x) y {''"
    by (simp add: open_matches_def n)
  show "open_check 1 ''@if (x) y {'' init = init"
    by (simp add: open_check_def n)
qed

text \<open>
  C3, amended. The opening pattern matches whenever the line contains \<^verbatim>\<open>@\<close>, one of the
  six directive keywords, optional whitespace, optionally a parenthesized expression with
  no closing parenthesis inside, optional whitespace and then the opening brace. On a
  match, of this or of any other line, the opening check pushes the pair of a directive
  keyword and the current line number; the keyword is that of this occurrence when no
  \<^verbatim>\<open>@\<close> stands before it on the line.
\<close>

theorem open_pattern_sufficient:
  assumes "w \<in> set directives"
    and "\<forall>c\<in>set ws1. is_space c" and "\<forall>c\<in>set ws2. is_space c"
    and "paren_group grp"
    and "l = pre @ ''@'' @ w @ ws1 @ grp @ ws2 @ ''{'' @ post"
  shows "(\<exists>tok\<in>set directives.
            open_matches l
            \<and> open_check i l st = st\<lparr>stack := stack st @ [(Some tok, i)]\<rparr>
            \<and> (CHR ''@'' \<notin> set pre \<longrightarrow> tok = w))
         \<and> (open_matches l' \<longrightarrow>
              (\<exists>tok\<in>set directives.
                 open_check i l' st = st\<lparr>stack := stack st @ [(Some tok, i)]\<rparr>))"
proof (intro conjI impI)
  from re_search_open_shape[OF assms(1-4), of pre post]
  obtain m tok where m: "re_search open_pattern l = Some m" and t: "m 1 = Some tok"
    and d: "tok \<in> set directives" and u: "CHR ''@'' \<notin> set pre \<longrightarrow> tok = w"
    unfolding assms(5) by blast
  have "open_matches l" by (simp add: open_matches_def m)
  moreover have "open_check i l st = st\<lparr>stack := stack st @ [(Some tok, i)]\<rparr>"
    using t by (simp add: open_check_def m)
  ultimately show "\<exists>tok\<in>set directives.
            open_matches l
            \<and> open_check i l st = st\<lparr>stack := stack st @ [(Some tok, i)]\<rparr>
            \<and> (CHR ''@'' \<notin> set pre \<longrightarrow> tok = w)"
    using d u by blast
next
  assume "open_matches l'"
  then obtain m where m: "re_search open_pattern l' = Some m"
    by (auto simp: open_matches_def)
  from re_search_open_directive[OF m] obtain tok where d: "tok \<in> set directives"
    and t: "m 1 = Some tok"
    by blast
  have "open_check i l' st = st\<lparr>stack := stack st @ [(Some tok, i)]\<rparr>"
    using t by (simp add: open_check_def m)
  then show "\<exists>tok\<in>set directives.
                 open_check i l' st = st\<lparr>stack := stack st @ [(Some tok, i)]\<rparr>"
    using d by blast
qed

theorem open_pattern_sufficient_witness:
  "''if'' \<in> set directives \<and> paren_group ''(x)''
   \<and> open_matches ''@if (x) {''
   \<and> open_check 1 ''@if (x) {'' init = \<lparr>stack = [(Some ''if'', 1)], out = []\<rparr>"
proof -
  have w: "''if'' \<in> set directives" by (simp add: directives_def)
  have s: "\<forall>c\<in>set '' ''. is_space c" by (simp add: is_space_def)
  have g: "paren_group ''(x)''" by (simp add: paren_group_def)
  have l: "''@if (x) {'' = [] @ ''@'' @ ''if'' @ '' '' @ ''(x)'' @ '' '' @ ''{'' @ []" by simp
  from open_pattern_sufficient[OF w s s g l, of 1 init "''@if (x) {''"]
  obtain tok where "open_matches ''@if (x) {''"
    and "open_check 1 ''@if (x) {'' init = init\<lparr>stack := stack init @ [(Some tok, 1)]\<rparr>"
    and "tok = ''if''"
    by auto
  then show ?thesis using w g by (simp add: init_def)
qed

text \<open>
  C2, as the claim states it, fails. For the five-line document \<^verbatim>\<open>@switch (x) {\<close> /
  \<^verbatim>\<open>@case 'a' {\<close> / \<^verbatim>\<open>text\<close> / \<^verbatim>\<open>} @case\<close> / \<^verbatim>\<open>} \<close> the program prints
  \<^verbatim>\<open>Unmatched closing brace at 5\<close> and \<^verbatim>\<open>All control blocks closed\<close>, not
  \<^verbatim>\<open>Unclosed control blocks:\<close> and \<^verbatim>\<open>switch opened at 1\<close>.
\<close>

theorem switch_case_document_output:
  "scan [''@switch (x) {'', ''@case 'a' {'', ''text'', ''} @case'', ''} '']
     = [''Unmatched closing brace at 5'', ''All control blocks closed'']
   \<and> scan [''@switch (x) {'', ''@case 'a' {'', ''text'', ''} @case'', ''} '']
     \<noteq> [''Unclosed control blocks:'', ''switch opened at 1'']"
proof -
  have "scan [''@switch (x) {'', ''@case 'a' {'', ''text'', ''} @case'', ''} '']
     = [''Unmatched closing brace at 5'', ''All control blocks closed'']"
    by (simp add: scan_eval)
  then show ?thesis by simp
qed

text \<open>
  C2, amended. For the same five-line document the line \<^verbatim>\<open>@switch (x) {\<close> pushes the
  entry \<^verbatim>\<open>(switch, 1)\<close>, each of the two closing lines matches the closing pattern, the
  stack is empty after the last line, and the output ends with
  \<^verbatim>\<open>All control blocks closed\<close>; no \<^verbatim>\<open>Unclosed control blocks:\<close> report is printed.
\<close>

theorem switch_case_document_balance:
  "stack (scan_from 1 [''@switch (x) {''] init) = [(Some ''switch'', 1)]
   \<and> close_matches ''} @case'' \<and> close_matches ''} ''
   \<and> stack (final [''@switch (x) {'', ''@case 'a' {'', ''text'', ''} @case'', ''} '']) = []
   \<and> last (scan [''@switch (x) {'', ''@case 'a' {'', ''text'', ''} @case'', ''} ''])
       = ''All control blocks closed''
   \<and> ''Unclosed control blocks:''
       \<notin> set (scan [''@switch (x) {'', ''@case 'a' {'', ''text'', ''} @case'', ''} ''])"
proof (intro conjI)
  show "stack (scan_from 1 [''@switch (x) {''] init) = [(Some ''switch'', 1)]"
    by (simp add: scan_eval)
  show "close_matches ''} @case''"
    by (simp add: close_matches_iff is_space_def)
  show "close_matches ''} ''"
    by (simp add: close_matches_iff is_space_def)
  show "stack (final [''@switch (x) {'', ''@case 'a' {'', ''text'', ''} @case'', ''} '']) = []"
    by (simp add: scan_eval)
  have s: "scan [''@switch (x) {'', ''@case 'a' {'', ''text'', ''} @case'', ''} '']
     = [''Unmatched closing brace at 5'', ''All control blocks closed'']"
    by (simp add: scan_eval)
  show "last (scan [''@switch (x) {'', ''@case 'a' {'', ''text'', ''} @case'', ''} ''])
       = ''All control blocks closed''"
    unfolding s by simp
  show "''Unclosed control blocks:''
       \<notin> set (scan [''@switch (x) {'', ''@case 'a' {'', ''text'', ''} @case'', ''} ''])"
    unfolding s by simp
qed

text \<open>
  C6. For the one-line document \<^verbatim>\<open>}\<close> the output is \<^verbatim>\<open>Unmatched closing brace at 1\<close>
  followed by \<^verbatim>\<open>All control blocks closed\<close>. An unmatched closer does not end the scan:
  the line only adds its message to the output, and the loop goes on with the next line
  number and the remaining lines; in general the scan of a document is the scan of its
  first lines followed by the scan of the remaining ones.
\<close>

theorem unmatched_closer_continues:
  "scan [''}''] = [''Unmatched closing brace at 1'', ''All control blocks closed'']
   \<and> (close_matches l \<and> stack (open_check i l st) = [] \<longrightarrow>
        step i l st = st\<lparr>out := out st @ [unmatched_msg i]\<rparr>
        \<and> scan_from i (l # rest) st
            = scan_from (Suc i) rest (st\<lparr>out := out st @ [unmatched_msg i]\<rparr>))
   \<and> scan_from i (ls1 @ ls2) st = scan_from (i + length ls1) ls2 (scan_from i ls1 st)"
proof (intro conjI impI)
  show "scan [''}''] = [''Unmatched closing brace at 1'', ''All control blocks closed'']"
    by (simp add: scan_eval)
  show "scan_from i (ls1 @ ls2) st = scan_from (i + length ls1) ls2 (scan_from i ls1 st)"
    by (rule scan_from_append)
next
  assume a: "close_matches l \<and> stack (open_check i l st) = []"
  then have "\<not> open_matches l" using open_check_length[of i l st] by auto
  then have o: "open_check i l st = st" by (simp add: open_check_def open_matches_def)
  with a show s: "step i l st = st\<lparr>out := out st @ [unmatched_msg i]\<rparr>"
    by (simp add: step_def close_check_cases)
  show "scan_from i (l # rest) st
            = scan_from (Suc i) rest (st\<lparr>out := out st @ [unmatched_msg i]\<rparr>)"
    by (simp add: s)
qed

theorem unmatched_closer_continues_witness:
  "close_matches ''}'' \<and> stack (open_check 1 ''}'' init) = []
   \<and> step 1 ''}'' init = init\<lparr>out := out init @ [unmatched_msg 1]\<rparr>
   \<and> scan_from 1 [''}'', ''@if (x) {''] init
       = scan_from (Suc 1) [''@if (x) {''] (init\<lparr>out := out init @ [unmatched_msg 1]\<rparr>)
   \<and> scan [''}'', ''@if (x) {'']
       = [''Unmatched closing brace at 1'', ''Unclosed control blocks:'', ''if opened at 2'']"
proof -
  have c: "close_matches ''}''" by (simp add: close_matches_iff is_space_def)
  have e: "stack (open_check 1 ''}'' init) = []" by (simp add: scan_eval)
  have s: "scan [''}'', ''@if (x) {'']
       = [''Unmatched closing brace at 1'', ''Unclosed control blocks:'', ''if opened at 2'']"
    by (simp add: scan_eval)
  from unmatched_closer_continues[of "''}''" 1 init "[''@if (x) {'']"] c e
  have "step 1 ''}'' init = init\<lparr>out := out init @ [unmatched_msg 1]\<rparr>
    \<and> scan_from 1 [''}'', ''@if (x) {''] init
       = scan_from (Suc 1) [''@if (x) {''] (init\<lparr>out := out init @ [unmatched_msg 1]\<rparr>)"
    by blast
  then show ?thesis using c e s by (simp del: scan_from.simps)
qed

text \<open>
  C5. After any number \<open>k\<close> of lines of any document, the size of the stack is the number
  of opening-pattern matches so far minus the number of pops so far (so the pops never
  exceed the matches), and every closing-pattern match so far was either a pop or one
  unmatched-closer message. Within a line, the opening check adds one entry exactly when
  the opening pattern matches; a closing match on an empty stack prints the message and
  leaves the stack empty instead of popping; a closing match on a non-empty stack removes
  one entry.
\<close>

theorem stack_size_is_opens_minus_pops:
  "int (length (stack (scan_from 1 (take k ls) init)))
     = int (opens_in (take k ls)) - int (pops_from 1 (take k ls) init)
   \<and> pops_from 1 (take k ls) init \<le> opens_in (take k ls)
   \<and> closes_in (take k ls)
     = pops_from 1 (take k ls) init + length (out (scan_from 1 (take k ls) init))
   \<and> length (stack (open_check i l st)) = length (stack st) + (if open_matches l then 1 else 0)
   \<and> (close_matches l \<and> stack st = [] \<longrightarrow>
        close_check i l st = st\<lparr>out := out st @ [unmatched_msg i]\<rparr>
        \<and> stack (close_check i l st) = [])
   \<and> (close_matches l \<and> stack st \<noteq> [] \<longrightarrow>
        close_check i l st = st\<lparr>stack := butlast (stack st)\<rparr>
        \<and> Suc (length (stack (close_check i l st))) = length (stack st))"
proof (intro conjI impI)
  have c: "length (stack (scan_from 1 (take k ls) init)) + pops_from 1 (take k ls) init
      = opens_in (take k ls)"
    using scan_from_stack_count[of 1 "take k ls" init] by (simp add: init_def)
  show "int (length (stack (scan_from 1 (take k ls) init)))
     = int (opens_in (take k ls)) - int (pops_from 1 (take k ls) init)"
    using c by linarith
  show "pops_from 1 (take k ls) init \<le> opens_in (take k ls)"
    using c by linarith
  show "closes_in (take k ls)
     = pops_from 1 (take k ls) init + length (out (scan_from 1 (take k ls) init))"
    using scan_from_out_count[of 1 "take k ls" init] by (simp add: init_def)
  show "length (stack (open_check i l st)) = length (stack st) + (if open_matches l then 1 else 0)"
    by (rule open_check_length)
next
  assume "close_matches l \<and> stack st = []"
  then show "close_check i l st = st\<lparr>out := out st @ [unmatched_msg i]\<rparr>"
    and "stack (close_check i l st) = []"
    by (simp_all add: close_check_cases)
next
  assume "close_matches l \<and> stack st \<noteq> []"
  then show "close_check i l st = st\<lparr>stack := butlast (stack st)\<rparr>"
    and "Suc (length (stack (close_check i l st))) = length (stack st)"
    by (simp_all add: close_check_cases)
qed

theorem stack_size_is_opens_minus_pops_witness:
  "close_matches ''}'' \<and> stack init = []
   \<and> close_check 3 ''}'' init = init\<lparr>out := out init @ [unmatched_msg 3]\<rparr>
   \<and> stack (close_check 3 ''}'' init) = []
   \<and> stack \<lparr>stack = [(Some ''if'', 1)], out = []\<rparr> \<noteq> []
   \<and> close_check 2 ''}'' \<lparr>stack = [(Some ''if'', 1)], out = []\<rparr> = init
   \<and> int (length (stack (scan_from 1 (take 3 [''@if (x) {'', ''}'', ''}'']) init)))
     = int (opens_in (take 3 [''@if (x) {'', ''}'', ''}'']))
       - int (pops_from 1 (take 3 [''@if (x) {'', ''}'', ''}'']) init)
   \<and> opens_in [''@if (x) {'', ''}'', ''}''] = 1
   \<and> pops_from 1 [''@if (x) {'', ''}'', ''}''] init = 1
   \<and> closes_in [''@if (x) {'', ''}'', ''}''] = 2
   \<and> out (scan_from 1 [''@if (x) {'', ''}'', ''}''] init) = [''Unmatched closing brace at 3'']"
proof -
  have c: "close_matches ''}''" by (simp add: close_matches_iff is_space_def)
  have o: "open_matches ''@if (x) {''" by (simp add: open_matches_def scan_eval)
  have n: "\<not> open_matches ''}''" by (simp add: open_matches_def scan_eval)
  have nc: "\<not> close_matches ''@if (x) {''" by (simp add: close_matches_iff is_space_def)
  have e: "stack init = []" by (simp add: init_def)
  have s: "stack \<lparr>stack = [(Some ''if'', 1)], out = []\<rparr> \<noteq> []" by simp
  have f: "out (scan_from 1 [''@if (x) {'', ''}'', ''}''] init) = [''Unmatched closing brace at 3'']"
    by (simp add: scan_eval)
  have p: "pops_from 1 [''@if (x) {'', ''}'', ''}''] init = 1"
    by (simp add: close_matches_def scan_eval)
  note t1 = stack_size_is_opens_minus_pops[of 3 "[''@if (x) {'', ''}'', ''}'']" 3 "''}''" init]
  note t2 = stack_size_is_opens_minus_pops[of 3 "[''@if (x) {'', ''}'', ''}'']" 2 "''}''"
      "\<lparr>stack = [(Some ''if'', 1)], out = []\<rparr>"]
  from t1 c e have a1: "close_check 3 ''}'' init = init\<lparr>out := out init @ [unmatched_msg 3]\<rparr>"
    and a2: "stack (close_check 3 ''}'' init) = []"
    and a3: "int (length (stack (scan_from 1 (take 3 [''@if (x) {'', ''}'', ''}'']) init)))
     = int (opens_in (take 3 [''@if (x) {'', ''}'', ''}'']))
       - int (pops_from 1 (take 3 [''@if (x) {'', ''}'', ''}'']) init)"
    by blast+
  from t2 c s have a4: "close_check 2 ''}'' \<lparr>stack = [(Some ''if'', 1)], out = []\<rparr>
      = \<lparr>stack = [(Some ''if'', 1)], out = []\<rparr>\<lparr>stack := butlast (stack \<lparr>stack = [(Some ''if'', 1)], out = []\<rparr>)\<rparr>"
    by blast
  have a5: "opens_in [''@if (x) {'', ''}'', ''}''] = 1" by (simp add: opens_in_def o n)
  have a6: "closes_in [''@if (x) {'', ''}'', ''}''] = 2" by (simp add: closes_in_def c nc)
  show ?thesis
    using c e a1 a2 s a4 a3 a5 p a6 f by (simp add: init_def)
qed

text \<open>
  C7. For every document whose scan ends with a non-empty stack, the output is the
  unmatched-closer messages of the scan, then the line \<^verbatim>\<open>Unclosed control blocks:\<close>, then
  one line \<^verbatim>\<open><keyword> opened at <line>\<close> for each remaining entry, in stack order. The
  line numbers of the remaining entries increase strictly along the stack, so the entries
  are listed in the order in which the blocks were opened, the earliest first; every entry
  carries one of the six directive keywords and the number of a line of the document on
  which the opening pattern matched with that keyword.
\<close>

theorem unclosed_blocks_in_opening_order:
  assumes "stack (final ls) \<noteq> []"
  shows "scan ls = out (final ls) @ ''Unclosed control blocks:'' # map opened_msg (stack (final ls))
    \<and> set (out (final ls)) \<subseteq> range unmatched_msg
    \<and> sorted_wrt (<) (map snd (stack (final ls)))
    \<and> (\<forall>e\<in>set (stack (final ls)).
          1 \<le> snd e \<and> snd e \<le> length ls
          \<and> (\<exists>w\<in>set directives.
                fst e = Some w
                \<and> opened_msg e = w @ '' opened at '' @ str_nat (snd e)
                \<and> (\<exists>m. re_search open_pattern (ls ! (snd e - 1)) = Some m \<and> m 1 = Some w)))"
proof (intro conjI ballI)
  show "scan ls = out (final ls) @ ''Unclosed control blocks:'' # map opened_msg (stack (final ls))"
    using assms by (simp add: scan_def report_def)
  show "set (out (final ls)) \<subseteq> range unmatched_msg"
    using scan_from_out[of 1 ls init] by (simp add: final_def init_def)
  show "sorted_wrt (<) (map snd (stack (final ls)))"
    unfolding final_def by (rule scan_from_stack_sorted) (simp_all add: init_def)
next
  fix e
  assume "e \<in> set (stack (final ls))"
  then have "e \<in> set (stack (scan_from 1 ls init))" by (simp add: final_def)
  from scan_from_stack_entries[OF this]
  obtain m where r: "1 \<le> snd e" "snd e < 1 + length ls"
    and m: "re_search open_pattern (ls ! (snd e - 1)) = Some m" "m 1 = fst e"
    by (auto simp: init_def)
  from re_search_open_directive[OF m(1)] obtain w where w: "w \<in> set directives" "m 1 = Some w"
    by blast
  show "1 \<le> snd e" by (rule r(1))
  show "snd e \<le> length ls" using r(2) by simp
  have f: "fst e = Some w" using m(2) w(2) by simp
  have "opened_msg e = w @ '' opened at '' @ str_nat (snd e)"
    by (simp add: opened_msg_def str_tok_def f)
  then show "\<exists>w\<in>set directives.
                fst e = Some w
                \<and> opened_msg e = w @ '' opened at '' @ str_nat (snd e)
                \<and> (\<exists>m. re_search open_pattern (ls ! (snd e - 1)) = Some m \<and> m 1 = Some w)"
    using w f m by blast
qed

theorem unclosed_blocks_in_opening_order_witness:
  "stack (final [''@if (x) {'', ''}'', ''}'', ''@for (y) {'', ''  @switch (z) {'']) \<noteq> []
   \<and> scan [''@if (x) {'', ''}'', ''}'', ''@for (y) {'', ''  @switch (z) {'']
       = [''Unmatched closing brace at 3'', ''Unclosed control blocks:'',
          ''for opened at 4'', ''switch opened at 5'']
   \<and> stack (final [''@if (x) {'', ''}'', ''}'', ''@for (y) {'', ''  @switch (z) {''])
       = [(Some ''for'', 4), (Some ''switch'', 5)]
   \<and> sorted_wrt (<) (map snd (stack (final [''@if (x) {'', ''}'', ''}'', ''@for (y) {'', ''  @switch (z) {''])))"
proof -
  let ?doc = "[''@if (x) {'', ''}'', ''}'', ''@for (y) {'', ''  @switch (z) {'']"
  have s: "stack (final ?doc) = [(Some ''for'', 4), (Some ''switch'', 5)]"
    by (simp add: scan_eval)
  have n: "stack (final ?doc) \<noteq> []" unfolding s by simp
  have o: "scan ?doc = [''Unmatched closing brace at 3'', ''Unclosed control blocks:'',
          ''for opened at 4'', ''switch opened at 5'']"
    by (simp add: scan_eval)
  from unclosed_blocks_in_opening_order[OF n]
  have "sorted_wrt (<) (map snd (stack (final ?doc)))" by blast
  then show ?thesis using s n o by simp
qed

text \<open>
  C9. The checker is deterministic: every document has a run, and any two runs on the same
  document print the same output.
\<close>

theorem scan_deterministic:
  "run_rel ls (scan ls) \<and> (\<forall>xs ys. run_rel ls xs \<and> run_rel ls ys \<longrightarrow> xs = ys)"
proof (intro conjI allI impI)
  show "run_rel ls (scan ls)" by (rule run_rel_scan)
next
  fix xs ys
  assume "run_rel ls xs \<and> run_rel ls ys"
  then have "xs = scan ls" "ys = scan ls" by (simp_all add: run_rel_unique)
  then show "xs = ys" by simp
qed

theorem scan_deterministic_witness:
  "run_rel [''@if (x) {'', ''}'', ''}'']
      [''Unmatched closing brace at 3'', ''All control blocks closed'']
   \<and> scan [''@if (x) {'', ''}'', ''}'']
      = [''Unmatched closing brace at 3'', ''All control blocks closed'']"
proof -
  have s: "scan [''@if (x) {'', ''}'', ''}'']
      = [''Unmatched closing brace at 3'', ''All control blocks closed'']"
    by (simp add: scan_eval)
  from scan_deterministic[of "[''@if (x) {'', ''}'', ''}'']"]
  have "run_rel [''@if (x) {'', ''}'', ''}''] (scan [''@if (x) {'', ''}'', ''}''])"
    by blast
  then show ?thesis unfolding s by simp
qed

end
